theory Spec2Isabelle
  imports Main "HOL-Library.Stream"
begin

section \<open>The serial sequence repeater: batch dispatcher and driver\<close>

text \<open>
  A shallow embedding of \<^verbatim>\<open>serial_sequence_repeater1.1.py\<close>.

  Text is a \<open>string\<close>; the batch strings of the program are ASCII literals, and the
  library functions \<^verbatim>\<open>str.split\<close>, \<^verbatim>\<open>str.upper\<close> and \<^verbatim>\<open>str.strip\<close> are
  modelled on ASCII text. What the script writes to the serial port and what it prints are
  two lists, in the order of the calls. Failures of the serial device after the port is
  open (an exception raised by \<^verbatim>\<open>ser.write\<close> or \<^verbatim>\<open>ser.readline\<close>), the
  keyboard interrupt and the calls of \<^verbatim>\<open>time.sleep\<close> are outside the model.
\<close>

subsection \<open>Strings\<close>

definition nl :: char where
  "nl = CHR 0x0A"

text \<open>The characters \<^verbatim>\<open>str.split()\<close> and \<^verbatim>\<open>str.strip()\<close> treat as whitespace.\<close>

definition isspace :: "char \<Rightarrow> bool" where
  "isspace c = (let n = (of_char c :: nat) in (9 \<le> n \<and> n \<le> 13) \<or> (28 \<le> n \<and> n \<le> 32))"

definition upper_char :: "char \<Rightarrow> char" where
  "upper_char c = (let n = (of_char c :: nat) in if 97 \<le> n \<and> n \<le> 122 then char_of (n - 32) else c)"

text \<open>\<^verbatim>\<open>s.upper()\<close>\<close>

definition upper :: "string \<Rightarrow> string" where
  "upper s = map upper_char s"

text \<open>
  \<^verbatim>\<open>s.split()\<close>: the maximal runs of non-whitespace characters, in order. The first
  argument holds the characters of the word being read.
\<close>

fun split_from :: "string \<Rightarrow> string \<Rightarrow> string list" where
  "split_from cur [] = (if cur = [] then [] else [cur])"
| "split_from cur (c # cs) =
     (if isspace c then (if cur = [] then split_from [] cs else cur # split_from [] cs)
      else split_from (cur @ [c]) cs)"

definition split :: "string \<Rightarrow> string list" where
  "split s = split_from [] s"

text \<open>\<^verbatim>\<open>s.strip()\<close>\<close>

definition strip :: "string \<Rightarrow> string" where
  "strip s = rev (dropWhile isspace (rev (dropWhile isspace s)))"

text \<open>\<^verbatim>\<open>sub in s\<close>: \<open>sub\<close> occurs in \<open>s\<close> as a block of consecutive characters.\<close>

fun str_contains :: "string \<Rightarrow> string \<Rightarrow> bool" where
  "str_contains sub [] = (sub = [])"
| "str_contains sub (c # cs) = (take (length sub) (c # cs) = sub \<or> str_contains sub cs)"

text \<open>The decimal digits of a number, for the formatted messages.\<close>

fun str_nat :: "nat \<Rightarrow> string" where
  "str_nat n = (if n < 10 then [char_of (48 + n)] else str_nat (n div 10) @ [char_of (48 + n mod 10)])"

definition str_int :: "int \<Rightarrow> string" where
  "str_int k = (if k < 0 then CHR ''-'' # str_nat (nat (- k)) else str_nat (nat k))"

subsection \<open>The serial port and the console\<close>

text \<open>
  \<open>tx\<close>: the payloads of the calls of \<^verbatim>\<open>ser.write\<close>; \<open>stdout\<close>: the text of each
  \<^verbatim>\<open>print\<close>, with the line end that \<^verbatim>\<open>print\<close> adds.
\<close>

record io =
  tx :: "string list"
  stdout :: "string list"

definition io0 :: io where
  "io0 = \<lparr>tx = [], stdout = []\<rparr>"

definition ser_write :: "string \<Rightarrow> io \<Rightarrow> io" where
  "ser_write b s = s\<lparr>tx := tx s @ [b]\<rparr>"

text \<open>\<^verbatim>\<open>print(t)\<close>\<close>

definition println :: "string \<Rightarrow> io \<Rightarrow> io" where
  "println t s = s\<lparr>stdout := stdout s @ [t @ [nl]]\<rparr>"

text \<open>\<^verbatim>\<open>print(t, end="", flush=True)\<close>\<close>

definition print_noeol :: "string \<Rightarrow> io \<Rightarrow> io" where
  "print_noeol t s = s\<lparr>stdout := stdout s @ [t]\<rparr>"

subsection \<open>Port discovery\<close>

text \<open>\<^verbatim>\<open>list_ports\<close>: \<open>ports\<close> is the result of \<^verbatim>\<open>comports()\<close>, device and description.\<close>

definition list_ports :: "(string \<times> string) list \<Rightarrow> io \<Rightarrow> io" where
  "list_ports ports s =
     (if ports = [] then println ''No serial ports found.'' s
      else fold (\<lambda>(device, description). println (''  '' @ device @ '' - '' @ description))
             ports (println ''Available serial ports:'' s))"

subsection \<open>The tokenization loop of \<^verbatim>\<open>send_batch_and_wait_done\<close>\<close>

text \<open>
  One pass through the body of \<^verbatim>\<open>while i < len(tokens)\<close>, entered with \<open>i < length tokens\<close>:
  either the loop goes on with a new cursor, or it is left by \<^verbatim>\<open>break\<close>.
\<close>

datatype control = Next nat io | Break io

text \<open>Lines 67 and 68: the sub-command is written, then reported.\<close>

definition send_sub :: "string \<Rightarrow> io \<Rightarrow> io" where
  "send_sub sub s = println (''Sent -> '' @ sub) (ser_write (sub @ [nl]) s)"

definition loop_body :: "string list \<Rightarrow> nat \<Rightarrow> io \<Rightarrow> control" where
  "loop_body tokens i s =
     (let tk = upper (tokens ! i) in
      if tk = ''ALL'' then
        Next (i + 1) (println ''Sent -> ALL'' (ser_write (''ALL'' @ [nl]) s))
      else if tk \<in> {''A'', ''T'', ''L'', ''D'', ''P''} then
        (if tk = ''D'' then
           (if i + 1 < length tokens then
              Next (i + 2) (send_sub (''D '' @ tokens ! (i + 1)) s)
            else Break (println ''Malformed D command'' s))
         else
           (if i + 2 < length tokens then
              Next (i + 3) (send_sub (tk @ '' '' @ tokens ! (i + 1) @ '' '' @ tokens ! (i + 2)) s)
            else Break (println (''Malformed '' @ tk @ '' command'') s)))
      else Next (i + 1) (println (''Skipping unknown token: '' @ tokens ! i) s))"

lemma loop_body_advances:
  "loop_body tokens i s = Next i' s' \<Longrightarrow> i < i' \<and> i' \<le> i + 3"
  by (auto simp: loop_body_def Let_def split: if_splits)

function tokenize_loop :: "string list \<Rightarrow> nat \<Rightarrow> io \<Rightarrow> io" where
  "tokenize_loop tokens i s =
     (if i < length tokens then
        (case loop_body tokens i s of
           Next i' s' \<Rightarrow> tokenize_loop tokens i' s'
         | Break s' \<Rightarrow> s')
      else s)"
  by pat_completeness auto
termination
  by (relation "measure (\<lambda>(tokens, i, s). length tokens - i)")
     (auto dest: loop_body_advances)

declare tokenize_loop.simps [simp del]

text \<open>
  The state of the loop seen from outside, for statements about the cursor:
  \<open>run_iters n tokens i s\<close> runs the loop from cursor \<open>i\<close> for \<open>n\<close> tests of its
  condition. \<open>At i' s'\<close>: the loop is at its head with cursor \<open>i'\<close>; \<open>Exited s'\<close>: the
  loop has been left, by its condition or by \<^verbatim>\<open>break\<close>.
\<close>

datatype progress = At nat io | Exited io

fun run_iters :: "nat \<Rightarrow> string list \<Rightarrow> nat \<Rightarrow> io \<Rightarrow> progress" where
  "run_iters 0 tokens i s = At i s"
| "run_iters (Suc n) tokens i s =
     (if i < length tokens then
        (case loop_body tokens i s of
           Next i' s' \<Rightarrow> run_iters n tokens i' s'
         | Break s' \<Rightarrow> Exited s')
      else Exited s)"

subsection \<open>The handshake loop of \<^verbatim>\<open>send_batch_and_wait_done\<close>\<close>

text \<open>
  \<open>rx\<close> is what the successive calls of \<^verbatim>\<open>ser.readline().decode(errors='ignore')\<close>
  return: the port is opened with a read timeout, so every call returns, with the empty
  string when nothing arrived. \<^verbatim>\<open>while True\<close> has no bound: the loop is a partial
  function, and \<open>None\<close> says that it never returns. It returns the lines not yet read
  and the console and port output.
\<close>

text \<open>The check mark U+2714 of the last message, in UTF-8.\<close>

definition check_mark :: string where
  "check_mark = [CHR 0xE2, CHR 0x9C, CHR 0x94]"

partial_function (option) wait_loop :: "string stream \<Rightarrow> string \<Rightarrow> io \<Rightarrow> (string stream \<times> io) option" where
  "wait_loop rx buffer s =
     (let line = strip (shd rx) in
      if line \<noteq> [] then
        (if str_contains ''DONE'' line then
           Some (stl rx, println (check_mark @ '' DONE received.'') (println (nl # ''[Board] '' @ line) s))
         else wait_loop (stl rx) (buffer @ line) (println (nl # ''[Board] '' @ line) s))
      else wait_loop (stl rx) buffer s)"

definition send_batch_and_wait_done :: "string stream \<Rightarrow> string \<Rightarrow> io \<Rightarrow> (string stream \<times> io) option" where
  "send_batch_and_wait_done rx cmd_group s =
     (let tokens = split cmd_group;
          s1 = tokenize_loop tokens 0 s
      in wait_loop rx [] (print_noeol ''Waiting for DONE...'' s1))"

subsection \<open>The driver\<close>

text \<open>The parsed command line; \<^verbatim>\<open>--delay\<close> only feeds \<^verbatim>\<open>time.sleep\<close>.\<close>

record args =
  list_flag :: bool
  port :: string
  baud :: int

text \<open>
  What \<^verbatim>\<open>Serial(args.port, args.baud, timeout=1)\<close> does: it opens the port, or raises
  \<^verbatim>\<open>SerialException\<close> with a message. Only that exception is caught by \<^verbatim>\<open>main\<close>.
\<close>

datatype open_result = Opened | Serial_Exception string

text \<open>\<^verbatim>\<open>sys.exit(code)\<close>, with what was written and printed until then.\<close>

datatype outcome = Exit int io

definition startup_commands :: "string list" where
  "startup_commands = [''A 2 1000'', ''T 2 2000'', ''L 2 200'', ''P 2 0 P 1 0 P 0 0'']"

definition commands :: "string list" where
  "commands = [''P 2 0'', ''P 2 0'', ''P 2 -15000'', ''P 2 -15000'']"

text \<open>\<^verbatim>\<open>for batch in batches: send_batch_and_wait_done(ser, batch)\<close>\<close>

fun run_batches :: "string list \<Rightarrow> string stream \<Rightarrow> io \<Rightarrow> (string stream \<times> io) option" where
  "run_batches [] rx s = Some (rx, s)"
| "run_batches (batch # batches) rx s =
     Option.bind (send_batch_and_wait_done rx batch s) (\<lambda>(rx', s'). run_batches batches rx' s')"

text \<open>The \<^verbatim>\<open>while True\<close> over \<open>commands\<close>: it has no \<^verbatim>\<open>break\<close>.\<close>

partial_function (option) repeat_commands :: "string stream \<Rightarrow> io \<Rightarrow> outcome option" where
  "repeat_commands rx s =
     Option.bind (run_batches commands rx s) (\<lambda>(rx', s'). repeat_commands rx' s')"

text \<open>
  \<^verbatim>\<open>main\<close>, after \<^verbatim>\<open>parse_args\<close>. \<open>ports\<close> is the result of \<^verbatim>\<open>comports()\<close>,
  \<open>serial_open\<close> the behaviour of the \<^verbatim>\<open>Serial\<close> constructor, \<open>rx\<close> what the device
  sends once the port is open. \<open>None\<close>: the process does not exit by itself.
\<close>

definition main :: "args \<Rightarrow> (string \<times> string) list \<Rightarrow> (string \<Rightarrow> int \<Rightarrow> open_result) \<Rightarrow> string stream \<Rightarrow> outcome option" where
  "main a ports serial_open rx =
     (if list_flag a then Some (Exit 0 (list_ports ports io0))
      else
        (case serial_open (port a) (baud a) of
           Serial_Exception e \<Rightarrow> Some (Exit 1 (println (''Error opening '' @ port a @ '': '' @ e) io0))
         | Opened \<Rightarrow>
             (let s1 = println (''Opened port '' @ port a @ '' at '' @ str_int (baud a) @ '' baud'') io0;
                  s2 = println ''=== Sending Startup Commands ==='' s1
              in Option.bind (run_batches startup_commands rx s2)
                   (\<lambda>(rx', s3). repeat_commands rx' (println (nl # ''=== Starting Repeating Commands ==='') s3)))))"

subsection \<open>The grouping of tokens, as the specification words it\<close>

text \<open>The number of argument tokens a command token requires.\<close>

definition required_args :: "string \<Rightarrow> nat option" where
  "required_args tk =
     (if tk = ''ALL'' then Some 0
      else if tk = ''D'' then Some 1
      else if tk = ''A'' \<or> tk = ''T'' \<or> tk = ''L'' \<or> tk = ''P'' then Some 2
      else None)"

text \<open>
  A token list is well formed when it is a sequence of command tokens, in any case, each
  followed by as many tokens as it requires.
\<close>

function well_formed :: "string list \<Rightarrow> bool" where
  "well_formed [] = True"
| "well_formed (t # ts) =
     (case required_args (upper t) of
        None \<Rightarrow> False
      | Some k \<Rightarrow> k \<le> length ts \<and> well_formed (drop k ts))"
  by pat_completeness auto
termination
  by (relation "measure length") auto

text \<open>Greedy grouping, left to right: each command token with the tokens it requires.\<close>

function greedy_groups :: "string list \<Rightarrow> string list list" where
  "greedy_groups [] = []"
| "greedy_groups (t # ts) =
     (case required_args (upper t) of
        None \<Rightarrow> []
      | Some k \<Rightarrow> (t # take k ts) # greedy_groups (drop k ts))"
  by pat_completeness auto
termination
  by (relation "measure length") auto

text \<open>The sub-command of a group: the keyword in upper case, then the arguments, separated by spaces.\<close>

fun sub_command :: "string list \<Rightarrow> string" where
  "sub_command [] = []"
| "sub_command (t # as) = upper t @ concat (map (\<lambda>a. '' '' @ a) as)"

subsection \<open>Auxiliary notions for the statements\<close>

text \<open>What a stretch of the program adds to the port and to the console, put after what was there.\<close>

definition append_io :: "io \<Rightarrow> io \<Rightarrow> io" where
  "append_io s d = \<lparr>tx = tx s @ tx d, stdout = stdout s @ stdout d\<rparr>"

text \<open>
  What one pass of the handshake loop prints for the line read: lines 77 to 79, the line
  stripped and reported when it is not empty.
\<close>

definition log_line :: "string \<Rightarrow> io \<Rightarrow> io" where
  "log_line raw s = (let line = strip raw in if line \<noteq> [] then println (nl # ''[Board] '' @ line) s else s)"

text \<open>The test of line 81 on the line read: \<^verbatim>\<open>"DONE" in line\<close>, after \<^verbatim>\<open>strip\<close>.\<close>

definition has_done :: "string \<Rightarrow> bool" where
  "has_done raw = str_contains ''DONE'' (strip raw)"

text \<open>The first word of a line that was sent: its keyword.\<close>

definition keyword_of :: "string \<Rightarrow> string" where
  "keyword_of line = takeWhile (\<lambda>c. \<not> isspace c) line"

section \<open>Properties of the tokenization loop\<close>

subsection \<open>The loop and its cursor\<close>

lemma run_iters_At_loop:
  "run_iters n tokens i0 s0 = At i s \<Longrightarrow> tokenize_loop tokens i0 s0 = tokenize_loop tokens i s"
proof (induction n arbitrary: i0 s0)
  case 0
  then show ?case by simp
next
  case (Suc n)
  then show ?case
    by (subst tokenize_loop.simps) (auto split: if_splits control.splits)
qed

lemma run_iters_Exited_loop:
  "run_iters n tokens i0 s0 = Exited s \<Longrightarrow> tokenize_loop tokens i0 s0 = s"
proof (induction n arbitrary: i0 s0)
  case 0
  then show ?case by simp
next
  case (Suc n)
  then show ?case
    by (subst tokenize_loop.simps) (auto split: if_splits control.splits)
qed

lemma run_iters_cursor:
  "run_iters n tokens i0 s0 = At i s \<Longrightarrow> i0 + n \<le> i"
proof (induction n arbitrary: i0 s0)
  case 0
  then show ?case by simp
next
  case (Suc n)
  then show ?case
    by (fastforce split: if_splits control.splits dest: loop_body_advances)
qed

lemma run_iters_snoc:
  "run_iters n tokens i0 s0 = At i s \<Longrightarrow> run_iters (Suc n) tokens i0 s0 = run_iters (Suc 0) tokens i s"
proof (induction n arbitrary: i0 s0)
  case 0
  then show ?case by simp
next
  case (Suc n)
  from Suc.prems have lt: "i0 < length tokens"
    by (simp split: if_splits)
  from Suc.prems lt obtain i1 s1 where b: "loop_body tokens i0 s0 = Next i1 s1"
    and r: "run_iters n tokens i1 s1 = At i s"
    by (auto split: control.splits)
  have "run_iters (Suc (Suc n)) tokens i0 s0 = run_iters (Suc n) tokens i1 s1"
    using lt b by simp
  with Suc.IH [OF r] show ?case by simp
qed

lemma run_iters_fuel:
  "length tokens - i < n \<Longrightarrow> run_iters n tokens i s = Exited (tokenize_loop tokens i s)"
proof (induction n arbitrary: i s)
  case 0
  then show ?case by simp
next
  case (Suc n)
  show ?case
  proof (cases "i < length tokens")
    case False
    then show ?thesis by (simp add: tokenize_loop.simps)
  next
    case True
    show ?thesis
    proof (cases "loop_body tokens i s")
      case (Break s')
      with True show ?thesis by (simp add: tokenize_loop.simps)
    next
      case (Next i' s')
      from loop_body_advances [OF Next] Suc.prems True have "length tokens - i' < n"
        by arith
      from Suc.IH [OF this] Next True show ?thesis
        by (simp add: tokenize_loop.simps [of tokens i s])
    qed
  qed
qed

lemma loop_body_cases:
  "(\<exists>s'. loop_body tokens i s = Break s') \<or> (\<exists>s'. loop_body tokens i s = Next (i + 1) s')
   \<or> (\<exists>s'. loop_body tokens i s = Next (i + 2) s') \<or> (\<exists>s'. loop_body tokens i s = Next (i + 3) s')"
  by (simp add: loop_body_def Let_def)

subsection \<open>Unknown tokens\<close>

text \<open>
  Claim C3. Whenever the cursor of the tokenization loop stands on a token whose upper-case
  form is neither \<open>ALL\<close> nor one of \<open>A\<close>, \<open>T\<close>, \<open>L\<close>, \<open>D\<close>, \<open>P\<close>, one
  more pass prints the skipping notice with the token as it was written, writes nothing to
  the port, leaves the loop running with the cursor advanced by exactly one, and the result
  of the loop is the result of going on from there. The batch \<open>XYZ P 1 5\<close> sends
  exactly the sub-command \<open>P 1 5\<close>.
\<close>

theorem unknown_token_skipped:
  assumes "run_iters n (split batch) 0 s0 = At i s"
    and "i < length (split batch)"
    and "upper (split batch ! i) \<notin> {''ALL'', ''A'', ''T'', ''L'', ''D'', ''P''}"
  shows "run_iters (Suc n) (split batch) 0 s0 =
           At (i + 1) (println (''Skipping unknown token: '' @ split batch ! i) s)
         \<and> tx (println (''Skipping unknown token: '' @ split batch ! i) s) = tx s
         \<and> tokenize_loop (split batch) 0 s0 =
             tokenize_loop (split batch) (i + 1) (println (''Skipping unknown token: '' @ split batch ! i) s)
         \<and> tx (tokenize_loop (split ''XYZ P 1 5'') 0 io0) = [''P 1 5'' @ [nl]]"
proof -
  let ?s' = "println (''Skipping unknown token: '' @ split batch ! i) s"
  from assms(3) have body: "loop_body (split batch) i s = Next (i + 1) ?s'"
    by (simp add: loop_body_def Let_def)
  with assms(2) have one: "run_iters (Suc 0) (split batch) i s = At (i + 1) ?s'"
    by simp
  with run_iters_snoc [OF assms(1)]
  have step: "run_iters (Suc n) (split batch) 0 s0 = At (i + 1) ?s'"
    by simp
  have ex: "tx (tokenize_loop (split ''XYZ P 1 5'') 0 io0) = [''P 1 5'' @ [nl]]"
    by code_simp
  from step run_iters_At_loop [OF step] ex show ?thesis
    by (simp add: println_def)
qed

theorem unknown_token_skipped_witness:
  "run_iters 0 (split ''XYZ P 1 5'') 0 io0 = At 0 io0
   \<and> 0 < length (split ''XYZ P 1 5'')
   \<and> upper (split ''XYZ P 1 5'' ! 0) \<notin> {''ALL'', ''A'', ''T'', ''L'', ''D'', ''P''}
   \<and> run_iters (Suc 0) (split ''XYZ P 1 5'') 0 io0 =
       At 1 \<lparr>tx = [], stdout = [''Skipping unknown token: XYZ'' @ [nl]]\<rparr>"
proof -
  have sp: "split ''XYZ P 1 5'' = [''XYZ'', ''P'', ''1'', ''5'']"
    by code_simp
  have a: "run_iters 0 (split ''XYZ P 1 5'') 0 io0 = At 0 io0"
    by simp
  have b: "0 < length (split ''XYZ P 1 5'')"
    by (simp add: sp)
  have c: "upper (split ''XYZ P 1 5'' ! 0) \<notin> {''ALL'', ''A'', ''T'', ''L'', ''D'', ''P''}"
    by (simp add: sp upper_def upper_char_def)
  from unknown_token_skipped [OF a b c] a b c show ?thesis
    by (simp add: sp println_def io0_def)
qed

subsection \<open>Termination of the tokenization loop\<close>

text \<open>
  Claim C9. Each pass through the body of the tokenization loop either leaves it by
  \<^verbatim>\<open>break\<close> or advances the cursor by exactly 1, 2 or 3. For every batch string the
  loop has been left after at most as many passes as there are tokens, with the result
  that the total function \<open>tokenize_loop\<close> computes: a pass number \<open>n + 1\<close> is only
  entered when \<open>n\<close> is below the number of tokens.
\<close>

theorem tokenize_loop_terminates:
  "((\<exists>s'. loop_body tokens i s = Break s') \<or> (\<exists>s'. loop_body tokens i s = Next (i + 1) s')
     \<or> (\<exists>s'. loop_body tokens i s = Next (i + 2) s') \<or> (\<exists>s'. loop_body tokens i s = Next (i + 3) s'))
   \<and> run_iters (Suc (length (split batch))) (split batch) 0 s = Exited (tokenize_loop (split batch) 0 s)
   \<and> (run_iters n (split batch) 0 s = At j sj \<and> j < length (split batch) \<longrightarrow> n < length (split batch))"
proof -
  have "run_iters n (split batch) 0 s = At j sj \<Longrightarrow> j < length (split batch) \<Longrightarrow> n < length (split batch)"
    using run_iters_cursor [of n "split batch" 0 s j sj] by simp
  moreover have "run_iters (Suc (length (split batch))) (split batch) 0 s = Exited (tokenize_loop (split batch) 0 s)"
    by (rule run_iters_fuel) simp
  ultimately show ?thesis
    using loop_body_cases [of tokens i s] by blast
qed

theorem tokenize_loop_terminates_witness:
  "run_iters 2 (split ''P 2 0 P 1 0 P 0 0'') 0 io0 = At 6 (send_sub ''P 1 0'' (send_sub ''P 2 0'' io0))
   \<and> 6 < length (split ''P 2 0 P 1 0 P 0 0'')
   \<and> (2::nat) < length (split ''P 2 0 P 1 0 P 0 0'')
   \<and> run_iters (Suc (length (split ''P 2 0 P 1 0 P 0 0''))) (split ''P 2 0 P 1 0 P 0 0'') 0 io0
       = Exited (send_sub ''P 0 0'' (send_sub ''P 1 0'' (send_sub ''P 2 0'' io0)))"
proof -
  have a: "run_iters 2 (split ''P 2 0 P 1 0 P 0 0'') 0 io0 = At 6 (send_sub ''P 1 0'' (send_sub ''P 2 0'' io0))"
    by code_simp
  have b: "6 < length (split ''P 2 0 P 1 0 P 0 0'')"
    by code_simp
  have c: "tokenize_loop (split ''P 2 0 P 1 0 P 0 0'') 0 io0 = send_sub ''P 0 0'' (send_sub ''P 1 0'' (send_sub ''P 2 0'' io0))"
    by code_simp
  from tokenize_loop_terminates [where batch = "''P 2 0 P 1 0 P 0 0''" and s = io0 and n = 2 and j = 6
      and sj = "send_sub ''P 1 0'' (send_sub ''P 2 0'' io0)"]
    a b c show ?thesis
    by simp
qed

subsection \<open>Well-formed batches\<close>

lemma tx_send_sub: "tx (send_sub sub s) = tx s @ [sub @ [nl]]"
  by (simp add: send_sub_def println_def ser_write_def)

lemma stdout_send_sub: "stdout (send_sub sub s) = stdout s @ [''Sent -> '' @ sub @ [nl]]"
  by (simp add: send_sub_def println_def ser_write_def)

lemma tx_fold_send_sub: "tx (fold send_sub subs s) = tx s @ map (\<lambda>sub. sub @ [nl]) subs"
  by (induction subs arbitrary: s) (simp_all add: tx_send_sub)

lemma stdout_fold_send_sub:
  "stdout (fold send_sub subs s) = stdout s @ map (\<lambda>sub. ''Sent -> '' @ sub @ [nl]) subs"
  by (induction subs arbitrary: s) (simp_all add: stdout_send_sub)

lemma required_args_cases:
  "required_args tk = Some k \<Longrightarrow>
     (tk = ''ALL'' \<and> k = 0) \<or> (tk = ''D'' \<and> k = 1) \<or> (tk \<in> {''A'', ''T'', ''L'', ''P''} \<and> k = 2)"
  by (auto simp: required_args_def split: if_splits)

lemma loop_body_required:
  assumes "required_args (upper (tokens ! i)) = Some k" and "i + k < length tokens"
  shows "loop_body tokens i s = Next (i + 1 + k) (send_sub (sub_command (tokens ! i # take k (drop (Suc i) tokens))) s)"
proof -
  from required_args_cases [OF assms(1)] show ?thesis
  proof (elim disjE conjE)
    assume "upper (tokens ! i) = ''ALL''" "k = 0"
    then show ?thesis
      by (simp add: loop_body_def send_sub_def)
  next
    assume a: "upper (tokens ! i) = ''D''" "k = 1"
    with assms(2) have "take k (drop (Suc i) tokens) = [tokens ! (i + 1)]"
      by (simp add: take_Suc_conv_app_nth)
    with a assms(2) show ?thesis
      by (simp add: loop_body_def)
  next
    assume a: "upper (tokens ! i) \<in> {''A'', ''T'', ''L'', ''P''}" "k = 2"
    with assms(2) have "take k (drop (Suc i) tokens) = [tokens ! (i + 1), tokens ! (i + 2)]"
      by (simp add: take_Suc_conv_app_nth numeral_2_eq_2)
    with a assms(2) show ?thesis
      by (auto simp: loop_body_def)
  qed
qed

lemma tokenize_loop_well_formed:
  "well_formed (drop i tokens) \<Longrightarrow>
     tokenize_loop tokens i s = fold send_sub (map sub_command (greedy_groups (drop i tokens))) s"
proof (induction tokens i s rule: tokenize_loop.induct)
  case (1 tokens i s)
  show ?case
  proof (cases "i < length tokens")
    case False
    then show ?thesis by (simp add: tokenize_loop.simps)
  next
    case True
    then have d: "drop i tokens = tokens ! i # drop (Suc i) tokens"
      by (simp add: Cons_nth_drop_Suc)
    from "1.prems" d obtain k where k: "required_args (upper (tokens ! i)) = Some k"
      and le: "k \<le> length (drop (Suc i) tokens)"
      and wf: "well_formed (drop k (drop (Suc i) tokens))"
      by (auto split: option.splits)
    from le True have lt: "i + k < length tokens" by simp
    let ?s' = "send_sub (sub_command (tokens ! i # take k (drop (Suc i) tokens))) s"
    have body: "loop_body tokens i s = Next (i + 1 + k) ?s'"
      by (rule loop_body_required [OF k lt])
    have dd: "drop k (drop (Suc i) tokens) = drop (i + 1 + k) tokens"
      by (simp add: add.commute)
    from wf dd have "well_formed (drop (i + 1 + k) tokens)" by simp
    from "1.IH" [OF True body this]
    have "tokenize_loop tokens (i + 1 + k) ?s' =
            fold send_sub (map sub_command (greedy_groups (drop (i + 1 + k) tokens))) ?s'" .
    with True body k d dd show ?thesis
      by (simp add: tokenize_loop.simps [of tokens i s])
  qed
qed

lemma concat_greedy_groups: "well_formed tokens \<Longrightarrow> concat (greedy_groups tokens) = tokens"
  by (induction tokens rule: greedy_groups.induct) (auto split: option.splits)

lemma greedy_groups_arity:
  "well_formed tokens \<Longrightarrow>
     map (\<lambda>g. required_args (upper (hd g))) (greedy_groups tokens) =
     map (\<lambda>g. Some (length (tl g))) (greedy_groups tokens)"
  by (induction tokens rule: greedy_groups.induct) (auto split: option.splits)

text \<open>
  Claim C1. For every batch string whose tokens are command tokens (in any case), each
  followed by the number of argument tokens it requires, the tokenization loop writes to
  the port exactly the sub-commands of the greedy left-to-right grouping, one line each and
  in order, and reports each of them; the groups, put end to end, are the token list (no
  token is dropped), and each group holds a command token with exactly its required
  number of arguments.
\<close>

theorem well_formed_batch_grouped:
  assumes "well_formed (split batch)"
  shows "tx (tokenize_loop (split batch) 0 s) =
           tx s @ map (\<lambda>g. sub_command g @ [nl]) (greedy_groups (split batch))
         \<and> stdout (tokenize_loop (split batch) 0 s) =
           stdout s @ map (\<lambda>g. ''Sent -> '' @ sub_command g @ [nl]) (greedy_groups (split batch))
         \<and> concat (greedy_groups (split batch)) = split batch
         \<and> map (\<lambda>g. required_args (upper (hd g))) (greedy_groups (split batch)) =
           map (\<lambda>g. Some (length (tl g))) (greedy_groups (split batch))"
proof -
  from assms have "tokenize_loop (split batch) 0 s =
      fold send_sub (map sub_command (greedy_groups (split batch))) s"
    using tokenize_loop_well_formed [of 0 "split batch" s] by simp
  then show ?thesis
    using concat_greedy_groups [OF assms] greedy_groups_arity [OF assms]
    by (simp add: tx_fold_send_sub stdout_fold_send_sub comp_def)
qed

theorem well_formed_batch_grouped_witness:
  "well_formed (split ''P 2 0 P 1 0 P 0 0'')
   \<and> greedy_groups (split ''P 2 0 P 1 0 P 0 0'') = [[''P'', ''2'', ''0''], [''P'', ''1'', ''0''], [''P'', ''0'', ''0'']]
   \<and> tx (tokenize_loop (split ''P 2 0 P 1 0 P 0 0'') 0 io0) = [''P 2 0'' @ [nl], ''P 1 0'' @ [nl], ''P 0 0'' @ [nl]]"
proof -
  have wf: "well_formed (split ''P 2 0 P 1 0 P 0 0'')"
    by code_simp
  have g: "greedy_groups (split ''P 2 0 P 1 0 P 0 0'') = [[''P'', ''2'', ''0''], [''P'', ''1'', ''0''], [''P'', ''0'', ''0'']]"
    by code_simp
  have u: "upper ''P'' = ''P''"
    by code_simp
  from well_formed_batch_grouped [OF wf, of io0] wf g u show ?thesis
    by (simp add: io0_def)
qed

subsection \<open>The output of the loop does not depend on what was sent before\<close>

lemma append_io_assoc: "append_io (append_io s d) e = append_io s (append_io d e)"
  by (simp add: append_io_def)

lemma append_io_io0: "append_io s io0 = s"
  by (simp add: append_io_def io0_def)

lemma loop_body_frame:
  "loop_body tokens i s =
     (case loop_body tokens i io0 of
        Next i' d \<Rightarrow> Next i' (append_io s d)
      | Break d \<Rightarrow> Break (append_io s d))"
  by (simp add: loop_body_def Let_def append_io_def io0_def send_sub_def println_def ser_write_def)

lemma tokenize_loop_frame:
  "tokenize_loop tokens i s = append_io s (tokenize_loop tokens i io0)"
proof (induction "length tokens - i" arbitrary: i s rule: less_induct)
  case less
  show ?case
  proof (cases "i < length tokens")
    case False
    then show ?thesis by (simp add: tokenize_loop.simps append_io_io0)
  next
    case True
    show ?thesis
    proof (cases "loop_body tokens i io0")
      case (Break d)
      with True loop_body_frame [of tokens i s] show ?thesis
        by (simp add: tokenize_loop.simps)
    next
      case (Next i' d)
      from loop_body_advances [OF Next] True have m: "length tokens - i' < length tokens - i"
        by arith
      from Next loop_body_frame [of tokens i s]
      have b: "loop_body tokens i s = Next i' (append_io s d)" by simp
      have "tokenize_loop tokens i s = tokenize_loop tokens i' (append_io s d)"
        using True b by (simp add: tokenize_loop.simps [of tokens i s])
      also have "\<dots> = append_io (append_io s d) (tokenize_loop tokens i' io0)"
        by (rule less [OF m])
      also have "\<dots> = append_io s (append_io d (tokenize_loop tokens i' io0))"
        by (rule append_io_assoc)
      also have "append_io d (tokenize_loop tokens i' io0) = tokenize_loop tokens i' d"
        by (rule less [OF m, symmetric])
      also have "tokenize_loop tokens i' d = tokenize_loop tokens i io0"
        using True Next by (simp add: tokenize_loop.simps [of tokens i io0])
      finally show ?thesis .
    qed
  qed
qed

lemma tx_tokenize_loop: "tx (tokenize_loop tokens i s) = tx s @ tx (tokenize_loop tokens i io0)"
  by (subst tokenize_loop_frame) (simp add: append_io_def)

section \<open>Properties of the handshake loop\<close>

lemma wait_loop_done:
  "has_done (shd rx) \<Longrightarrow>
     wait_loop rx buffer s = Some (stl rx, println (check_mark @ '' DONE received.'') (log_line (shd rx) s))"
  by (subst wait_loop.simps) (auto simp: has_done_def log_line_def Let_def)

lemma wait_loop_skip:
  "\<not> has_done (shd rx) \<Longrightarrow>
     wait_loop rx buffer s = wait_loop (stl rx) (buffer @ strip (shd rx)) (log_line (shd rx) s)"
  by (subst wait_loop.simps) (simp add: has_done_def log_line_def Let_def)

lemma wait_loop_first_done:
  "has_done (rx !! n) \<Longrightarrow> (\<And>k. k < n \<Longrightarrow> \<not> has_done (rx !! k)) \<Longrightarrow>
     wait_loop rx buffer s =
       Some (sdrop (Suc n) rx, println (check_mark @ '' DONE received.'') (fold log_line (stake (Suc n) rx) s))"
proof (induction n arbitrary: rx buffer s)
  case 0
  then show ?case by (simp add: wait_loop_done)
next
  case (Suc n)
  from Suc.prems(2) [of 0] have nd: "\<not> has_done (shd rx)" by simp
  have d: "has_done (stl rx !! n)" using Suc.prems(1) by simp
  have e: "\<And>k. k < n \<Longrightarrow> \<not> has_done (stl rx !! k)"
    using Suc.prems(2) by (metis Suc_less_eq snth.simps(2))
  from Suc.IH [OF d e] wait_loop_skip [OF nd] show ?case
    by simp
qed

lemma wait_loop_Some_done:
  assumes "wait_loop rx buffer s = Some y"
  shows "\<exists>k. has_done (rx !! k)"
proof (rule wait_loop.raw_induct [where P = "\<lambda>rx buffer s y. \<exists>k. has_done (rx !! k)", OF _ assms])
  fix f :: "string stream \<Rightarrow> string \<Rightarrow> io \<Rightarrow> (string stream \<times> io) option"
  fix rx buffer s y
  assume IH: "\<And>rx b s y. f rx b s = Some y \<Longrightarrow> \<exists>k. has_done (rx !! k)"
  assume body: "(let line = strip (shd rx)
      in if line \<noteq> []
         then if str_contains ''DONE'' line
              then Some (stl rx, println (check_mark @ '' DONE received.'') (println (nl # ''[Board] '' @ line) s))
              else f (stl rx) (buffer @ line) (println (nl # ''[Board] '' @ line) s)
         else f (stl rx) buffer s) = Some y"
  show "\<exists>k. has_done (rx !! k)"
  proof (cases "has_done (shd rx)")
    case True
    then have "has_done (rx !! 0)" by simp
    then show ?thesis ..
  next
    case False
    with body obtain b' s' where "f (stl rx) b' s' = Some y"
      by (auto simp: has_done_def Let_def split: if_splits)
    from IH [OF this] obtain k where "has_done (stl rx !! k)" ..
    then have "has_done (rx !! Suc k)" by simp
    then show ?thesis ..
  qed
qed

lemma wait_loop_tx:
  assumes "wait_loop rx buffer s = Some y"
  shows "tx (snd y) = tx s"
proof (rule wait_loop.raw_induct [where P = "\<lambda>rx buffer s y. tx (snd y) = tx s", OF _ assms])
  fix f :: "string stream \<Rightarrow> string \<Rightarrow> io \<Rightarrow> (string stream \<times> io) option"
  fix rx buffer s y
  assume IH: "\<And>rx b s y. f rx b s = Some y \<Longrightarrow> tx (snd y) = tx s"
  assume body: "(let line = strip (shd rx)
      in if line \<noteq> []
         then if str_contains ''DONE'' line
              then Some (stl rx, println (check_mark @ '' DONE received.'') (println (nl # ''[Board] '' @ line) s))
              else f (stl rx) (buffer @ line) (println (nl # ''[Board] '' @ line) s)
         else f (stl rx) buffer s) = Some y"
  then show "tx (snd y) = tx s"
    by (auto simp: Let_def println_def split: if_splits dest: IH)
qed

lemma send_batch_and_wait_done_unfold:
  "send_batch_and_wait_done rx batch s =
     wait_loop rx [] (print_noeol ''Waiting for DONE...'' (tokenize_loop (split batch) 0 s))"
  by (simp add: send_batch_and_wait_done_def Let_def)

subsection \<open>The test for DONE on the line as it was read\<close>

lemma str_contains_iff: "str_contains sub s \<longleftrightarrow> (\<exists>ps ss. s = ps @ sub @ ss)"
proof (induction s)
  case Nil
  show ?case by auto
next
  case (Cons c cs)
  have p: "take (length sub) (c # cs) = sub \<longleftrightarrow> (\<exists>ss. c # cs = sub @ ss)"
    by (metis append_eq_conv_conj)
  have "(\<exists>ps ss. c # cs = ps @ sub @ ss) \<longleftrightarrow>
          (\<exists>ss. c # cs = sub @ ss) \<or> (\<exists>ps ss. cs = ps @ sub @ ss)"
  proof
    assume "\<exists>ps ss. c # cs = ps @ sub @ ss"
    then obtain ps ss where e: "c # cs = ps @ sub @ ss" by blast
    show "(\<exists>ss. c # cs = sub @ ss) \<or> (\<exists>ps ss. cs = ps @ sub @ ss)"
    proof (cases ps)
      case Nil
      with e show ?thesis by auto
    next
      case (Cons a ps')
      with e have "cs = ps' @ sub @ ss" by simp
      then show ?thesis by blast
    qed
  next
    assume "(\<exists>ss. c # cs = sub @ ss) \<or> (\<exists>ps ss. cs = ps @ sub @ ss)"
    then show "\<exists>ps ss. c # cs = ps @ sub @ ss"
    proof
      assume "\<exists>ss. c # cs = sub @ ss"
      then obtain ss where "c # cs = [] @ sub @ ss" by auto
      then show ?thesis by blast
    next
      assume "\<exists>ps ss. cs = ps @ sub @ ss"
      then obtain ps ss where "cs = ps @ sub @ ss" by blast
      then have "c # cs = (c # ps) @ sub @ ss" by simp
      then show ?thesis by blast
    qed
  qed
  with p Cons.IH show ?case by simp
qed

lemma strip_middle: "\<exists>w1 w2. l = w1 @ strip l @ w2"
proof -
  have "l = takeWhile isspace l @ dropWhile isspace l" by simp
  moreover have "dropWhile isspace l =
      rev (dropWhile isspace (rev (dropWhile isspace l))) @ rev (takeWhile isspace (rev (dropWhile isspace l)))"
    by (metis rev_append rev_rev_ident takeWhile_dropWhile_id)
  ultimately have "l = takeWhile isspace l @ strip l @ rev (takeWhile isspace (rev (dropWhile isspace l)))"
    by (simp add: strip_def)
  then show ?thesis by blast
qed

lemma strip_keeps_done:
  "strip (ps @ ''DONE'' @ ss) =
     dropWhile isspace ps @ ''DONE'' @ rev (dropWhile isspace (rev ss))"
proof -
  have d: "\<not> isspace CHR ''D''" and e: "\<not> isspace CHR ''E''"
    by (simp_all add: isspace_def)
  have "dropWhile isspace (ps @ ''DONE'' @ ss) = dropWhile isspace ps @ ''DONE'' @ ss"
    using d dropWhile_append3 [where P = isspace and y = "CHR ''D''" and xs = ps and ys = "''ONE'' @ ss"]
    by simp
  moreover have "dropWhile isspace (rev (dropWhile isspace ps @ ''DONE'' @ ss)) =
      dropWhile isspace (rev ss) @ ''ENOD'' @ rev (dropWhile isspace ps)"
    using e dropWhile_append3 [where P = isspace and y = "CHR ''E''" and xs = "rev ss"
        and ys = "''NOD'' @ rev (dropWhile isspace ps)"]
    by simp
  ultimately show ?thesis
    by (simp add: strip_def)
qed

lemma has_done_raw: "has_done raw \<longleftrightarrow> str_contains ''DONE'' raw"
proof
  assume "has_done raw"
  then obtain ps ss where s: "strip raw = ps @ ''DONE'' @ ss"
    unfolding has_done_def str_contains_iff by blast
  from strip_middle [of raw] obtain w1 w2 where "raw = w1 @ strip raw @ w2" by blast
  with s have "raw = (w1 @ ps) @ ''DONE'' @ (ss @ w2)" by simp
  then show "str_contains ''DONE'' raw"
    unfolding str_contains_iff by blast
next
  assume "str_contains ''DONE'' raw"
  then obtain ps ss where "raw = ps @ ''DONE'' @ ss"
    unfolding str_contains_iff by blast
  then have "strip raw = dropWhile isspace ps @ ''DONE'' @ rev (dropWhile isspace (rev ss))"
    by (simp only: strip_keeps_done)
  then show "has_done raw"
    unfolding has_done_def str_contains_iff by blast
qed

subsection \<open>The handshake returns at the first line that holds DONE\<close>

text \<open>
  Claim C4. Let \<open>rx\<close> be the lines the serial reads return, and let read number \<open>n\<close>
  be the first whose line contains \<open>DONE\<close>. Then the handshake loop, and with it
  \<open>send_batch_and_wait_done\<close>, returns: it has consumed exactly the reads up to and
  including number \<open>n\<close> (the reads left are those after it), it has reported every
  non-empty line among them, in order, and then the receipt of DONE, whatever the number
  of lines before it.
\<close>

theorem handshake_returns_at_first_done:
  assumes "str_contains ''DONE'' (rx !! n)" and "\<forall>k<n. \<not> str_contains ''DONE'' (rx !! k)"
  shows "wait_loop rx buffer s =
           Some (sdrop (Suc n) rx,
                 println (check_mark @ '' DONE received.'') (fold log_line (stake (Suc n) rx) s))
         \<and> send_batch_and_wait_done rx batch s =
           Some (sdrop (Suc n) rx,
                 println (check_mark @ '' DONE received.'')
                   (fold log_line (stake (Suc n) rx)
                      (print_noeol ''Waiting for DONE...'' (tokenize_loop (split batch) 0 s))))"
proof -
  from assms(1) have d: "has_done (rx !! n)"
    by (simp add: has_done_raw del: str_contains.simps)
  from assms(2) have "\<And>k. k < n \<Longrightarrow> \<not> has_done (rx !! k)"
    by (simp add: has_done_raw del: str_contains.simps)
  from wait_loop_first_done [OF d this] show ?thesis
    by (simp add: send_batch_and_wait_done_unfold)
qed

theorem handshake_returns_at_first_done_witness:
  "str_contains ''DONE'' ((''busy'' ## [] ## '' ok DONE '' ## sconst []) !! 2)
   \<and> \<not> str_contains ''DONE'' ((''busy'' ## [] ## '' ok DONE '' ## sconst []) !! 0)
   \<and> \<not> str_contains ''DONE'' ((''busy'' ## [] ## '' ok DONE '' ## sconst []) !! 1)
   \<and> wait_loop (''busy'' ## [] ## '' ok DONE '' ## sconst []) [] io0 =
       Some (sconst [],
             \<lparr>tx = [],
              stdout = [nl # ''[Board] busy'' @ [nl], nl # ''[Board] ok DONE'' @ [nl],
                        check_mark @ '' DONE received.'' @ [nl]]\<rparr>)"
proof -
  let ?rx = "''busy'' ## [] ## '' ok DONE '' ## sconst []"
  have s0: "strip ''busy'' = ''busy''" by code_simp
  have s1: "strip [] = []" by code_simp
  have s2: "strip '' ok DONE '' = ''ok DONE''" by code_simp
  have c0: "\<not> str_contains ''DONE'' ''busy''" by code_simp
  have c1: "\<not> str_contains ''DONE'' []" by code_simp
  have c2: "str_contains ''DONE'' '' ok DONE ''" by code_simp
  have a: "str_contains ''DONE'' (?rx !! 2)"
    by (simp add: numeral_2_eq_2 c2 del: str_contains.simps)
  have b0: "\<not> str_contains ''DONE'' (?rx !! 0)" and b1: "\<not> str_contains ''DONE'' (?rx !! 1)"
    by (simp_all add: c0 c1 del: str_contains.simps)
  from b0 b1 have b: "\<forall>k<2. \<not> str_contains ''DONE'' (?rx !! k)"
    by (simp add: numeral_2_eq_2 less_Suc_eq del: str_contains.simps)
  from handshake_returns_at_first_done [OF a b, of "[]" io0] a b0 b1 show ?thesis
    by (simp add: numeral_2_eq_2 log_line_def s0 s1 s2 println_def io0_def del: str_contains.simps)
qed

subsection \<open>Without DONE the handshake never returns\<close>

text \<open>
  Claim C5. When no line that the serial reads return contains \<open>DONE\<close>, the handshake
  loop never returns, and neither does \<open>send_batch_and_wait_done\<close>: the loop has no
  other way out.
\<close>

theorem handshake_never_returns_without_done:
  assumes "\<forall>k. \<not> str_contains ''DONE'' (rx !! k)"
  shows "wait_loop rx buffer s = None \<and> send_batch_and_wait_done rx batch s = None"
proof -
  from assms have nd: "\<forall>k. \<not> has_done (rx !! k)"
    by (simp add: has_done_raw del: str_contains.simps)
  have "wait_loop rx b t = None" for b t
  proof (cases "wait_loop rx b t")
    case None
    then show ?thesis .
  next
    case (Some y)
    from wait_loop_Some_done [OF Some] nd show ?thesis by blast
  qed
  then show ?thesis
    by (simp add: send_batch_and_wait_done_unfold)
qed

theorem handshake_never_returns_without_done_witness:
  "(\<forall>k. \<not> str_contains ''DONE'' (sconst ''BUSY'' !! k))
   \<and> wait_loop (sconst ''BUSY'') [] io0 = None
   \<and> send_batch_and_wait_done (sconst ''BUSY'') ''P 2 0'' io0 = None"
proof -
  have c: "\<not> str_contains ''DONE'' ''BUSY''" by code_simp
  have a: "\<forall>k. \<not> str_contains ''DONE'' (sconst ''BUSY'' !! k)"
    by (simp add: c del: str_contains.simps)
  from handshake_never_returns_without_done [OF a] a show ?thesis
    by simp
qed

section \<open>Further properties of the dispatcher\<close>

subsection \<open>Malformed commands\<close>

lemma run_iters_one_Break:
  "i < length tokens \<Longrightarrow> loop_body tokens i s = Break s' \<Longrightarrow> run_iters (Suc 0) tokens i s = Exited s'"
  by simp

lemma run_iters_one_Next:
  "i < length tokens \<Longrightarrow> loop_body tokens i s = Next i' s' \<Longrightarrow> run_iters (Suc 0) tokens i s = At i' s'"
  by simp

lemma loop_body_malformed:
  assumes "(upper (tokens ! i) \<in> {''A'', ''T'', ''L'', ''P''} \<and> \<not> i + 2 < length tokens)
           \<or> (upper (tokens ! i) = ''D'' \<and> \<not> i + 1 < length tokens)"
  shows "loop_body tokens i s = Break (println (''Malformed '' @ upper (tokens ! i) @ '' command'') s)"
  using assms by (auto simp: loop_body_def)

text \<open>
  Claim C2. Whenever the cursor of the tokenization loop stands on a token whose upper-case
  form is \<open>A\<close>, \<open>T\<close>, \<open>L\<close> or \<open>P\<close> with fewer than two tokens after it, or \<open>D\<close> with
  no token after it, the next pass prints the malformed-command notice and leaves the loop:
  nothing is written for that token or for any token after it, what was written before is
  what the port has received, and the handshake loop runs next, on that state.
\<close>

theorem malformed_command_aborts:
  assumes "run_iters n (split batch) 0 s0 = At i s"
    and "i < length (split batch)"
    and "(upper (split batch ! i) \<in> {''A'', ''T'', ''L'', ''P''} \<and> \<not> i + 2 < length (split batch))
         \<or> (upper (split batch ! i) = ''D'' \<and> \<not> i + 1 < length (split batch))"
  shows "run_iters (Suc n) (split batch) 0 s0 =
           Exited (println (''Malformed '' @ upper (split batch ! i) @ '' command'') s)
         \<and> tokenize_loop (split batch) 0 s0 =
             println (''Malformed '' @ upper (split batch ! i) @ '' command'') s
         \<and> tx (tokenize_loop (split batch) 0 s0) = tx s
         \<and> send_batch_and_wait_done rx batch s0 =
             wait_loop rx [] (print_noeol ''Waiting for DONE...''
               (println (''Malformed '' @ upper (split batch ! i) @ '' command'') s))"
proof -
  let ?s' = "println (''Malformed '' @ upper (split batch ! i) @ '' command'') s"
  have body: "loop_body (split batch) i s = Break ?s'"
    by (rule loop_body_malformed [OF assms(3)])
  have "run_iters (Suc n) (split batch) 0 s0 = run_iters (Suc 0) (split batch) i s"
    by (rule run_iters_snoc [OF assms(1)])
  also have "\<dots> = Exited ?s'"
    by (rule run_iters_one_Break [OF assms(2) body])
  finally have ex: "run_iters (Suc n) (split batch) 0 s0 = Exited ?s'" .
  from run_iters_Exited_loop [OF ex] have res: "tokenize_loop (split batch) 0 s0 = ?s'" .
  have "tx ?s' = tx s"
    by (simp add: println_def)
  with ex res show ?thesis
    by (simp add: send_batch_and_wait_done_unfold)
qed

theorem malformed_command_aborts_witness:
  "run_iters 1 (split ''P 1 0 d'') 0 io0 = At 3 (send_sub ''P 1 0'' io0)
   \<and> 3 < length (split ''P 1 0 d'')
   \<and> upper (split ''P 1 0 d'' ! 3) = ''D''
   \<and> \<not> 3 + 1 < length (split ''P 1 0 d'')
   \<and> tokenize_loop (split ''P 1 0 d'') 0 io0 =
       \<lparr>tx = [''P 1 0'' @ [nl]], stdout = [''Sent -> P 1 0'' @ [nl], ''Malformed D command'' @ [nl]]\<rparr>"
proof -
  have sp: "split ''P 1 0 d'' = [''P'', ''1'', ''0'', ''d'']"
    by code_simp
  have a: "run_iters 1 (split ''P 1 0 d'') 0 io0 = At 3 (send_sub ''P 1 0'' io0)"
    by code_simp
  have b: "3 < length (split ''P 1 0 d'')"
    by (simp add: sp)
  have u: "upper (split ''P 1 0 d'' ! 3) = ''D''"
    by code_simp
  have c: "\<not> 3 + 1 < length (split ''P 1 0 d'')"
    by (simp add: sp)
  from u c have d: "(upper (split ''P 1 0 d'' ! 3) \<in> {''A'', ''T'', ''L'', ''P''} \<and> \<not> 3 + 2 < length (split ''P 1 0 d''))
         \<or> (upper (split ''P 1 0 d'' ! 3) = ''D'' \<and> \<not> 3 + 1 < length (split ''P 1 0 d''))"
    by blast
  from malformed_command_aborts [OF a b d] a b u c show ?thesis
    by (simp add: println_def send_sub_def ser_write_def io0_def)
qed

subsection \<open>Arguments are passed on as they are\<close>

lemma loop_body_two_args:
  "upper (tokens ! i) \<in> {''A'', ''T'', ''L'', ''P''} \<Longrightarrow> i + 2 < length tokens \<Longrightarrow>
     loop_body tokens i s =
       Next (i + 3) (send_sub (upper (tokens ! i) @ '' '' @ tokens ! (i + 1) @ '' '' @ tokens ! (i + 2)) s)"
  by (auto simp: loop_body_def)

lemma loop_body_one_arg:
  "upper (tokens ! i) = ''D'' \<Longrightarrow> i + 1 < length tokens \<Longrightarrow>
     loop_body tokens i s = Next (i + 2) (send_sub (''D '' @ tokens ! (i + 1)) s)"
  by (simp add: loop_body_def)

lemma tx_after_send:
  assumes "run_iters n tokens 0 s0 = At i s" and "i < length tokens"
    and "loop_body tokens i s = Next i' (send_sub sub s)"
  shows "run_iters (Suc n) tokens 0 s0 = At i' (send_sub sub s)
         \<and> tx (tokenize_loop tokens 0 s0) = tx s @ [sub @ [nl]] @ tx (tokenize_loop tokens i' io0)"
proof -
  have "run_iters (Suc n) tokens 0 s0 = run_iters (Suc 0) tokens i s"
    by (rule run_iters_snoc [OF assms(1)])
  also have "\<dots> = At i' (send_sub sub s)"
    by (rule run_iters_one_Next [OF assms(2,3)])
  finally have st: "run_iters (Suc n) tokens 0 s0 = At i' (send_sub sub s)" .
  from run_iters_At_loop [OF st]
  have "tx (tokenize_loop tokens 0 s0) = tx (tokenize_loop tokens i' (send_sub sub s))"
    by simp
  also have "\<dots> = tx (send_sub sub s) @ tx (tokenize_loop tokens i' io0)"
    by (rule tx_tokenize_loop)
  finally show ?thesis
    using st by (simp add: tx_send_sub)
qed

text \<open>
  Claim C10. Whenever the cursor stands on a token whose upper-case form is \<open>A\<close>, \<open>T\<close>,
  \<open>L\<close> or \<open>P\<close> and two tokens follow, the next pass consumes the three tokens and the line
  written to the port is the keyword in upper case and the two following tokens exactly as
  they stand in the batch, whatever they are; likewise with \<open>D\<close> and the one token after
  it. The batch \<open>p P x\<close> sends the single sub-command \<open>P P x\<close>.
\<close>

theorem arguments_sent_verbatim:
  assumes "run_iters n (split batch) 0 s0 = At i s"
  shows "(upper (split batch ! i) \<in> {''A'', ''T'', ''L'', ''P''} \<and> i + 2 < length (split batch) \<longrightarrow>
            run_iters (Suc n) (split batch) 0 s0 =
              At (i + 3) (send_sub (upper (split batch ! i) @ '' '' @ split batch ! (i + 1) @ '' '' @ split batch ! (i + 2)) s)
            \<and> tx (tokenize_loop (split batch) 0 s0) =
                tx s @ [(upper (split batch ! i) @ '' '' @ split batch ! (i + 1) @ '' '' @ split batch ! (i + 2)) @ [nl]]
                  @ tx (tokenize_loop (split batch) (i + 3) io0))
         \<and> (upper (split batch ! i) = ''D'' \<and> i + 1 < length (split batch) \<longrightarrow>
            run_iters (Suc n) (split batch) 0 s0 = At (i + 2) (send_sub (''D '' @ split batch ! (i + 1)) s)
            \<and> tx (tokenize_loop (split batch) 0 s0) =
                tx s @ [(''D '' @ split batch ! (i + 1)) @ [nl]] @ tx (tokenize_loop (split batch) (i + 2) io0))
         \<and> tx (tokenize_loop (split ''p P x'') 0 io0) = [''P P x'' @ [nl]]"
proof (intro conjI impI)
  assume h: "upper (split batch ! i) \<in> {''A'', ''T'', ''L'', ''P''} \<and> i + 2 < length (split batch)"
  then have lt: "i < length (split batch)" by simp
  from h have body: "loop_body (split batch) i s =
      Next (i + 3) (send_sub (upper (split batch ! i) @ '' '' @ split batch ! (i + 1) @ '' '' @ split batch ! (i + 2)) s)"
    by (simp add: loop_body_two_args)
  from tx_after_send [OF assms lt body]
  show "run_iters (Suc n) (split batch) 0 s0 =
      At (i + 3) (send_sub (upper (split batch ! i) @ '' '' @ split batch ! (i + 1) @ '' '' @ split batch ! (i + 2)) s)"
    and "tx (tokenize_loop (split batch) 0 s0) =
      tx s @ [(upper (split batch ! i) @ '' '' @ split batch ! (i + 1) @ '' '' @ split batch ! (i + 2)) @ [nl]]
        @ tx (tokenize_loop (split batch) (i + 3) io0)"
    by simp_all
next
  assume h: "upper (split batch ! i) = ''D'' \<and> i + 1 < length (split batch)"
  then have lt: "i < length (split batch)" by simp
  from h have body: "loop_body (split batch) i s = Next (i + 2) (send_sub (''D '' @ split batch ! (i + 1)) s)"
    by (simp add: loop_body_one_arg)
  from tx_after_send [OF assms lt body]
  show "run_iters (Suc n) (split batch) 0 s0 = At (i + 2) (send_sub (''D '' @ split batch ! (i + 1)) s)"
    and "tx (tokenize_loop (split batch) 0 s0) =
      tx s @ [(''D '' @ split batch ! (i + 1)) @ [nl]] @ tx (tokenize_loop (split batch) (i + 2) io0)"
    by simp_all
next
  show "tx (tokenize_loop (split ''p P x'') 0 io0) = [''P P x'' @ [nl]]"
    by code_simp
qed

theorem arguments_sent_verbatim_witness:
  "run_iters 0 (split ''t all Zz d a'') 0 io0 = At 0 io0
   \<and> upper (split ''t all Zz d a'' ! 0) \<in> {''A'', ''T'', ''L'', ''P''}
   \<and> 0 + 2 < length (split ''t all Zz d a'')
   \<and> run_iters (Suc 0) (split ''t all Zz d a'') 0 io0 = At 3 (send_sub ''T all Zz'' io0)
   \<and> tx (tokenize_loop (split ''t all Zz d a'') 0 io0) = [''T all Zz'' @ [nl], ''D a'' @ [nl]]"
proof -
  have sp: "split ''t all Zz d a'' = [''t'', ''all'', ''Zz'', ''d'', ''a'']"
    by code_simp
  have a: "run_iters 0 (split ''t all Zz d a'') 0 io0 = At 0 io0"
    by simp
  have u: "upper ''t'' = ''T''"
    by code_simp
  have r: "tx (tokenize_loop [''t'', ''all'', ''Zz'', ''d'', ''a''] 3 io0) = [''D a'' @ [nl]]"
    by code_simp
  have t: "tx io0 = []"
    by (simp add: io0_def)
  from arguments_sent_verbatim [OF a] show ?thesis
    by (simp add: sp u r t)
qed

subsection \<open>Tokenization depends on the batch string only\<close>

text \<open>
  Claim C7. The sub-commands that the tokenization of a batch string writes to the port are
  a function of the batch string alone: whatever was written and printed before, the run
  adds the same sequence, the one a run from the empty state gives; and when
  \<open>send_batch_and_wait_done\<close> returns, whatever the device answered, that sequence is what
  it has added to the port.
\<close>

theorem tokenization_deterministic:
  "tx (tokenize_loop (split batch) 0 s) = tx s @ tx (tokenize_loop (split batch) 0 io0)
   \<and> tx (tokenize_loop (split batch) 0 s') = tx s' @ tx (tokenize_loop (split batch) 0 io0)
   \<and> (send_batch_and_wait_done rx batch s = Some (rx', t) \<longrightarrow>
        tx t = tx s @ tx (tokenize_loop (split batch) 0 io0))"
proof -
  have "tx t = tx s @ tx (tokenize_loop (split batch) 0 io0)"
    if "send_batch_and_wait_done rx batch s = Some (rx', t)"
  proof -
    from that have "wait_loop rx [] (print_noeol ''Waiting for DONE...'' (tokenize_loop (split batch) 0 s)) = Some (rx', t)"
      by (simp add: send_batch_and_wait_done_unfold)
    from wait_loop_tx [OF this] have "tx t = tx (tokenize_loop (split batch) 0 s)"
      by (simp add: print_noeol_def)
    then show ?thesis
      by (simp add: tx_tokenize_loop [of "split batch" 0 s])
  qed
  then show ?thesis
    using tx_tokenize_loop [of "split batch" 0 s] tx_tokenize_loop [of "split batch" 0 s']
    by simp
qed

theorem tokenization_deterministic_witness:
  "send_batch_and_wait_done (''DONE'' ## sconst []) ''p 1 2 all'' \<lparr>tx = [''X''], stdout = []\<rparr> =
     Some (sconst [],
           \<lparr>tx = [''X'', ''P 1 2'' @ [nl], ''ALL'' @ [nl]],
            stdout = [''Sent -> P 1 2'' @ [nl], ''Sent -> ALL'' @ [nl], ''Waiting for DONE...'',
                      nl # ''[Board] DONE'' @ [nl], check_mark @ '' DONE received.'' @ [nl]]\<rparr>)
   \<and> tx (tokenize_loop (split ''p 1 2 all'') 0 io0) = [''P 1 2'' @ [nl], ''ALL'' @ [nl]]
   \<and> tx (tokenize_loop (split ''p 1 2 all'') 0 \<lparr>tx = [''X''], stdout = []\<rparr>) = [''X'', ''P 1 2'' @ [nl], ''ALL'' @ [nl]]"
proof -
  have t: "tokenize_loop (split ''p 1 2 all'') 0 \<lparr>tx = [''X''], stdout = []\<rparr> =
      \<lparr>tx = [''X'', ''P 1 2'' @ [nl], ''ALL'' @ [nl]], stdout = [''Sent -> P 1 2'' @ [nl], ''Sent -> ALL'' @ [nl]]\<rparr>"
    by code_simp
  have e: "tx (tokenize_loop (split ''p 1 2 all'') 0 io0) = [''P 1 2'' @ [nl], ''ALL'' @ [nl]]"
    by code_simp
  have s: "strip ''DONE'' = ''DONE''" by code_simp
  have c: "str_contains ''DONE'' ''DONE''" by code_simp
  have d: "has_done (shd (''DONE'' ## sconst []))"
    by (simp add: has_done_def s c del: str_contains.simps)
  have r: "send_batch_and_wait_done (''DONE'' ## sconst []) ''p 1 2 all'' \<lparr>tx = [''X''], stdout = []\<rparr> =
     Some (sconst [],
           \<lparr>tx = [''X'', ''P 1 2'' @ [nl], ''ALL'' @ [nl]],
            stdout = [''Sent -> P 1 2'' @ [nl], ''Sent -> ALL'' @ [nl], ''Waiting for DONE...'',
                      nl # ''[Board] DONE'' @ [nl], check_mark @ '' DONE received.'' @ [nl]]\<rparr>)"
    by (simp add: send_batch_and_wait_done_unfold t wait_loop_done [OF d] log_line_def s println_def print_noeol_def)
  from tokenization_deterministic [of "''p 1 2 all''" "\<lparr>tx = [''X''], stdout = []\<rparr>" io0
      "''DONE'' ## sconst []" "sconst []"
      "\<lparr>tx = [''X'', ''P 1 2'' @ [nl], ''ALL'' @ [nl]],
            stdout = [''Sent -> P 1 2'' @ [nl], ''Sent -> ALL'' @ [nl], ''Waiting for DONE...'',
                      nl # ''[Board] DONE'' @ [nl], check_mark @ '' DONE received.'' @ [nl]]\<rparr>"] r e
  show ?thesis
    by simp
qed

subsection \<open>Command tokens are matched without regard to case\<close>

lemma loop_body_update_later:
  "loop_body tokens j s = Next j' s' \<Longrightarrow> j' \<le> i \<Longrightarrow> loop_body (tokens[i := t]) j s = Next j' s'"
  by (auto simp: loop_body_def Let_def split: if_splits)

lemma run_iters_update:
  "run_iters n tokens j s0 = At i s \<Longrightarrow> run_iters n (tokens[i := t]) j s0 = At i s"
proof (induction n arbitrary: j s0)
  case 0
  then show ?case by simp
next
  case (Suc n)
  from Suc.prems have lt: "j < length tokens"
    by (simp split: if_splits)
  from Suc.prems lt obtain j1 s1 where b: "loop_body tokens j s0 = Next j1 s1"
    and r: "run_iters n tokens j1 s1 = At i s"
    by (auto split: control.splits)
  from run_iters_cursor [OF r] have "j1 \<le> i" by simp
  from loop_body_update_later [OF b this] have "loop_body (tokens[i := t]) j s0 = Next j1 s1" .
  with lt Suc.IH [OF r] show ?case by simp
qed

lemma loop_body_update_before:
  "i < j \<Longrightarrow> loop_body (tokens[i := t]) j s = loop_body tokens j s"
  by (simp add: loop_body_def Let_def)

lemma tokenize_loop_update_before:
  "i < j \<Longrightarrow> tokenize_loop (tokens[i := t]) j s = tokenize_loop tokens j s"
proof (induction "length tokens - j" arbitrary: j s rule: less_induct)
  case less
  show ?case
  proof (cases "j < length tokens")
    case False
    then show ?thesis
      by (simp add: tokenize_loop.simps [of _ j s])
  next
    case True
    show ?thesis
    proof (cases "loop_body tokens j s")
      case (Break s')
      with True less.prems show ?thesis
        by (simp add: tokenize_loop.simps [of _ j s] loop_body_update_before)
    next
      case (Next j' s')
      from loop_body_advances [OF Next] True less.prems
      have m: "length tokens - j' < length tokens - j" and lt: "i < j'"
        by arith+
      from less.hyps [OF m lt] Next True less.prems show ?thesis
        by (simp add: tokenize_loop.simps [of _ j s] loop_body_update_before)
    qed
  qed
qed

lemma loop_body_same_upper:
  assumes "upper t = upper (tokens ! i)" and "i < length tokens"
    and "upper (tokens ! i) \<in> {''ALL'', ''A'', ''T'', ''L'', ''D'', ''P''}"
  shows "loop_body (tokens[i := t]) i s = loop_body tokens i s"
  using assms by (auto simp: loop_body_def Let_def)

lemma tokenize_loop_same_upper:
  assumes "upper t = upper (tokens ! i)" and "i < length tokens"
    and "upper (tokens ! i) \<in> {''ALL'', ''A'', ''T'', ''L'', ''D'', ''P''}"
  shows "tokenize_loop (tokens[i := t]) i s = tokenize_loop tokens i s"
proof (cases "loop_body tokens i s")
  case (Break s')
  with assms(2) loop_body_same_upper [OF assms, of s] show ?thesis
    by (simp add: tokenize_loop.simps [of _ i s])
next
  case (Next i' s')
  from loop_body_advances [OF Next] have "i < i'" by simp
  from tokenize_loop_update_before [OF this, of tokens t s'] Next assms(2)
    loop_body_same_upper [OF assms, of s]
  show ?thesis
    by (simp add: tokenize_loop.simps [of _ i s])
qed

lemma keyword_of_sent:
  "keyword_of [CHR ''A'', CHR ''L'', CHR ''L'', nl] = ''ALL''"
  "keyword_of (CHR ''D'' # CHR '' '' # r) = ''D''"
  "keyword_of (CHR ''A'' # CHR '' '' # r) = ''A''"
  "keyword_of (CHR ''T'' # CHR '' '' # r) = ''T''"
  "keyword_of (CHR ''L'' # CHR '' '' # r) = ''L''"
  "keyword_of (CHR ''P'' # CHR '' '' # r) = ''P''"
  by (simp_all add: keyword_of_def isspace_def nl_def)

lemma loop_body_keywords:
  assumes "list_all (\<lambda>l. keyword_of l \<in> {''ALL'', ''A'', ''T'', ''L'', ''D'', ''P''}) (tx s)"
  shows "list_all (\<lambda>l. keyword_of l \<in> {''ALL'', ''A'', ''T'', ''L'', ''D'', ''P''})
           (tx (case loop_body tokens i s of Next i' s' \<Rightarrow> s' | Break s' \<Rightarrow> s'))"
  using assms
  by (auto simp: loop_body_def Let_def send_sub_def println_def ser_write_def keyword_of_sent)

lemma tokenize_loop_keywords:
  "list_all (\<lambda>l. keyword_of l \<in> {''ALL'', ''A'', ''T'', ''L'', ''D'', ''P''}) (tx s) \<Longrightarrow>
   list_all (\<lambda>l. keyword_of l \<in> {''ALL'', ''A'', ''T'', ''L'', ''D'', ''P''}) (tx (tokenize_loop tokens i s))"
proof (induction tokens i s rule: tokenize_loop.induct)
  case (1 tokens i s)
  show ?case
  proof (cases "i < length tokens")
    case False
    with "1.prems" show ?thesis by (simp add: tokenize_loop.simps)
  next
    case True
    show ?thesis
    proof (cases "loop_body tokens i s")
      case (Break s')
      with True loop_body_keywords [OF "1.prems", of tokens i] show ?thesis
        by (simp add: tokenize_loop.simps [of tokens i s])
    next
      case (Next i' s')
      with loop_body_keywords [OF "1.prems", of tokens i]
      have "list_all (\<lambda>l. keyword_of l \<in> {''ALL'', ''A'', ''T'', ''L'', ''D'', ''P''}) (tx s')"
        by simp
      from "1.IH" [OF True Next this] True Next show ?thesis
        by (simp add: tokenize_loop.simps [of tokens i s])
    qed
  qed
qed

text \<open>
  Claim C6. Whenever the cursor of the tokenization loop stands on a command token (its
  upper-case form is \<open>ALL\<close>, \<open>A\<close>, \<open>T\<close>, \<open>L\<close>, \<open>D\<close> or \<open>P\<close>), writing that token in any
  other mix of cases changes nothing in what the loop sends and prints; and the keyword of
  every line the loop sends is one of these six upper-case words.
\<close>

theorem command_token_case_insensitive:
  assumes "run_iters n (split batch) 0 s0 = At i s"
    and "i < length (split batch)"
    and "upper (split batch ! i) \<in> {''ALL'', ''A'', ''T'', ''L'', ''D'', ''P''}"
    and "upper t = upper (split batch ! i)"
  shows "tokenize_loop ((split batch)[i := t]) 0 s0 = tokenize_loop (split batch) 0 s0
         \<and> list_all (\<lambda>l. keyword_of l \<in> {''ALL'', ''A'', ''T'', ''L'', ''D'', ''P''})
             (tx (tokenize_loop (split batch) 0 io0))"
proof -
  from run_iters_update [OF assms(1)]
  have "run_iters n ((split batch)[i := t]) 0 s0 = At i s" .
  from run_iters_At_loop [OF this]
  have "tokenize_loop ((split batch)[i := t]) 0 s0 = tokenize_loop ((split batch)[i := t]) i s" .
  also have "\<dots> = tokenize_loop (split batch) i s"
    by (rule tokenize_loop_same_upper [OF assms(4,2,3)])
  also have "\<dots> = tokenize_loop (split batch) 0 s0"
    by (rule run_iters_At_loop [OF assms(1), symmetric])
  finally have "tokenize_loop ((split batch)[i := t]) 0 s0 = tokenize_loop (split batch) 0 s0" .
  moreover have "list_all (\<lambda>l. keyword_of l \<in> {''ALL'', ''A'', ''T'', ''L'', ''D'', ''P''})
             (tx (tokenize_loop (split batch) 0 io0))"
    by (rule tokenize_loop_keywords) (simp add: io0_def)
  ultimately show ?thesis ..
qed

theorem command_token_case_insensitive_witness:
  "run_iters 1 (split ''p 1 2 All'') 0 io0 = At 3 (send_sub ''P 1 2'' io0)
   \<and> 3 < length (split ''p 1 2 All'')
   \<and> upper (split ''p 1 2 All'' ! 3) \<in> {''ALL'', ''A'', ''T'', ''L'', ''D'', ''P''}
   \<and> upper ''aLl'' = upper (split ''p 1 2 All'' ! 3)
   \<and> (split ''p 1 2 All'')[3 := ''aLl''] = split ''p 1 2 aLl''
   \<and> tokenize_loop (split ''p 1 2 aLl'') 0 io0 = tokenize_loop (split ''p 1 2 All'') 0 io0
   \<and> tx (tokenize_loop (split ''p 1 2 All'') 0 io0) = [''P 1 2'' @ [nl], ''ALL'' @ [nl]]"
proof -
  have a: "run_iters 1 (split ''p 1 2 All'') 0 io0 = At 3 (send_sub ''P 1 2'' io0)"
    by code_simp
  have b: "3 < length (split ''p 1 2 All'')"
    by code_simp
  have c: "upper (split ''p 1 2 All'' ! 3) \<in> {''ALL'', ''A'', ''T'', ''L'', ''D'', ''P''}"
    by code_simp
  have d: "upper ''aLl'' = upper (split ''p 1 2 All'' ! 3)"
    by code_simp
  have e: "(split ''p 1 2 All'')[3 := ''aLl''] = split ''p 1 2 aLl''"
    by code_simp
  have f: "tx (tokenize_loop (split ''p 1 2 All'') 0 io0) = [''P 1 2'' @ [nl], ''ALL'' @ [nl]]"
    by code_simp
  from command_token_case_insensitive [OF a b c d] have
    "tokenize_loop ((split ''p 1 2 All'')[3 := ''aLl'']) 0 io0 = tokenize_loop (split ''p 1 2 All'') 0 io0"
    by simp
  with e have "tokenize_loop (split ''p 1 2 aLl'') 0 io0 = tokenize_loop (split ''p 1 2 All'') 0 io0"
    by simp
  with a b c d e f show ?thesis
    by blast
qed

section \<open>Properties of the driver\<close>

lemma tx_println: "tx (println t s) = tx s"
  by (simp add: println_def)

lemma tx_fold_println:
  "tx (fold (\<lambda>(device, description). println (f device description)) ports s) = tx s"
  by (induction ports arbitrary: s) (auto simp: tx_println)

lemma tx_list_ports: "tx (list_ports ports s) = tx s"
  by (simp add: list_ports_def tx_println tx_fold_println)

text \<open>
  Claim C8. With \<^verbatim>\<open>--list\<close> the process enumerates the ports and exits with code 0: the
  outcome does not depend on the \<^verbatim>\<open>Serial\<close> constructor or on the device, and
  nothing has been written to a port. Without it, when the constructor raises
  \<^verbatim>\<open>SerialException\<close>, the process prints the error message, with the port name and
  the text of the exception, and exits with code 1, nothing written.
\<close>

theorem main_exit_codes:
  "(list_flag a \<longrightarrow>
      main a ports serial_open rx = Some (Exit 0 (list_ports ports io0))
      \<and> tx (list_ports ports io0) = [])
   \<and> (\<not> list_flag a \<and> serial_open (port a) (baud a) = Serial_Exception e \<longrightarrow>
      main a ports serial_open rx = Some (Exit 1 (println (''Error opening '' @ port a @ '': '' @ e) io0))
      \<and> tx (println (''Error opening '' @ port a @ '': '' @ e) io0) = [])"
  by (simp add: main_def tx_list_ports tx_println io0_def)

theorem main_exit_codes_witness:
  "main \<lparr>list_flag = True, port = [], baud = 115200\<rparr> [(''COM3'', ''USB Serial Device'')] (\<lambda>p b. Opened) (sconst [])
     = Some (Exit 0 \<lparr>tx = [], stdout = [''Available serial ports:'' @ [nl], ''  COM3 - USB Serial Device'' @ [nl]]\<rparr>)
   \<and> main \<lparr>list_flag = False, port = ''COM9'', baud = 115200\<rparr> [] (\<lambda>p b. Serial_Exception ''could not open port'') (sconst [])
     = Some (Exit 1 \<lparr>tx = [], stdout = [''Error opening COM9: could not open port'' @ [nl]]\<rparr>)"
  using main_exit_codes [where a = "\<lparr>list_flag = True, port = [], baud = 115200\<rparr>"
      and ports = "[(''COM3'', ''USB Serial Device'')]" and serial_open = "\<lambda>p b. Opened" and rx = "sconst []"]
    main_exit_codes [where a = "\<lparr>list_flag = False, port = ''COM9'', baud = 115200\<rparr>"
      and ports = "[]" and serial_open = "\<lambda>p b. Serial_Exception ''could not open port''"
      and e = "''could not open port''" and rx = "sconst []"]
  by (simp add: list_ports_def println_def io0_def)

end
